theory Spec2Isabelle
  imports Main "HOL-Library.Word"
begin

section \<open>Channels and goroutines\<close>

text \<open>
  The library (src/gl/golinq.go) wires goroutines together with unbuffered channels.
  Every channel it creates has exactly one sending goroutine, created together with
  the channel, and that goroutine is a sequential loop. What a receiver observes on
  such a channel is therefore determined by the sender's program: a receive hands
  over the value of the sender's next \<^verbatim>\<open>output <- v\<close>, or reports the close, or never
  returns.

  A goroutine is modelled by its local state and a body that runs it from that state
  up to its next operation on its own output channel:
  \<^item> \<open>Some (Send v s)\<close>: it executes \<^verbatim>\<open>output <- v\<close> and continues in state \<open>s\<close>;
  \<^item> \<open>Some (CloseOut s)\<close>: it executes \<^verbatim>\<open>close(output)\<close> and returns, its locals
    being \<open>s\<close>;
  \<^item> \<open>None\<close>: it never reaches another operation on its output (it is blocked for
    ever in a receive, or loops for ever).
  The local state of a transform contains the channel it reads from, so the state of
  the whole upstream pipeline is visible in it: how much of an input was consumed can
  be read off the state.

  The sender is run when its receiver receives. In Go it may have run ahead, and is
  then blocked in the very send that this receive completes: the values and their
  order are the same. Once a goroutine has closed its output and returned, its state
  in the model is its state in Go; before that, the model may show a goroutine one
  receive behind (it can already hold the element of its pending send).

  Go's \<^verbatim>\<open>int\<close> is a 64-bit two's complement integer: \<open>64 word\<close>, compared with the
  signed order \<open><s\<close>.
\<close>

type_synonym go_int = "64 word"

datatype ('a, 's) out_op = Send 'a 's | CloseOut 's

text \<open>The two results of \<^verbatim>\<open>v, ok := <-ch\<close>, with the channel as it is afterwards.\<close>

datatype ('a, 'c) recv = Val 'a 'c | Closed 'c

datatype 's goroutine = Running 's | Exited 's

text \<open>A channel value is \<^verbatim>\<open>nil\<close> or a channel made by \<^verbatim>\<open>make\<close> with its sender.\<close>

datatype ('a, 's) chan = NilChan | Chan "'s \<Rightarrow> ('a, 's) out_op option" "'s goroutine"

fun is_nil :: "('a, 's) chan \<Rightarrow> bool" where
  "is_nil NilChan = True"
| "is_nil (Chan body g) = False"

fun chan_after :: "('a, 'c) recv \<Rightarrow> 'c" where
  "chan_after (Val v c) = c"
| "chan_after (Closed c) = c"

text \<open>
  \<^verbatim>\<open><-ch\<close>. A receive from a nil channel blocks for ever; a receive from a closed
  channel returns at once; otherwise the sender runs to its next send or close.
\<close>

fun receive :: "('a, 's) chan \<Rightarrow> ('a, ('a, 's) chan) recv option" where
  "receive NilChan = None"
| "receive (Chan body (Exited s)) = Some (Closed (Chan body (Exited s)))"
| "receive (Chan body (Running s)) =
     (case body s of
        None \<Rightarrow> None
      | Some (Send v s') \<Rightarrow> Some (Val v (Chan body (Running s')))
      | Some (CloseOut s') \<Rightarrow> Some (Closed (Chan body (Exited s'))))"

section \<open>Producers\<close>

text \<open>\<^verbatim>\<open>From\<close>: the state of the goroutine is the part of the slice not yet sent.\<close>

fun From_body :: "'a list \<Rightarrow> ('a, 'a list) out_op option" where
  "From_body [] = Some (CloseOut [])"
| "From_body (elem # rest) = Some (Send elem rest)"

definition From :: "'a list \<Rightarrow> ('a, 'a list) chan" where
  "From source = Chan From_body (Running source)"

text \<open>
  \<^verbatim>\<open>Fibonaccis\<close>: two sends, then the endless loop; the state is the program point
  with the variables \<^verbatim>\<open>a\<close> and \<^verbatim>\<open>b\<close>.
\<close>

datatype fib_pc = SendA | SendB | Loop

fun Fibonaccis_body :: "fib_pc \<times> go_int \<times> go_int \<Rightarrow> (go_int, fib_pc \<times> go_int \<times> go_int) out_op option" where
  "Fibonaccis_body (SendA, a, b) = Some (Send a (SendB, a, b))"
| "Fibonaccis_body (SendB, a, b) = Some (Send b (Loop, a, b))"
| "Fibonaccis_body (Loop, a, b) = (let c = a + b in Some (Send c (Loop, b, c)))"

definition Fibonaccis :: "(go_int, fib_pc \<times> go_int \<times> go_int) chan" where
  "Fibonaccis = Chan Fibonaccis_body (Running (SendA, 1, 1))"

section \<open>Transforms\<close>

definition Map_body :: "('a \<Rightarrow> 'b) \<Rightarrow> ('a, 's) chan \<Rightarrow> ('b, ('a, 's) chan) out_op option" where
  "Map_body mapper source =
     (case receive source of
        None \<Rightarrow> None
      | Some (Val s src') \<Rightarrow> Some (Send (mapper s) src')
      | Some (Closed src') \<Rightarrow> Some (CloseOut src'))"

definition Map :: "('a, 's) chan \<Rightarrow> ('a \<Rightarrow> 'b) \<Rightarrow> ('b, ('a, 's) chan) chan" where
  "Map source mapper =
     (if is_nil source then NilChan else Chan (Map_body mapper) (Running source))"

text \<open>
  \<^verbatim>\<open>Zip\<close>: both receives are made in every round, the one from \<^verbatim>\<open>ys\<close> also when
  \<^verbatim>\<open>xs\<close> has just reported its close.
\<close>

fun Zip_body :: "('a \<Rightarrow> 'b \<Rightarrow> 'c) \<Rightarrow> ('a, 's) chan \<times> ('b, 't) chan
    \<Rightarrow> ('c, ('a, 's) chan \<times> ('b, 't) chan) out_op option" where
  "Zip_body mapper (xs, ys) =
     (case receive xs of
        None \<Rightarrow> None
      | Some rx \<Rightarrow>
          (case receive ys of
             None \<Rightarrow> None
           | Some ry \<Rightarrow>
               (case (rx, ry) of
                  (Val x xs', Val y ys') \<Rightarrow> Some (Send (mapper x y) (xs', ys'))
                | _ \<Rightarrow> Some (CloseOut (chan_after rx, chan_after ry)))))"

definition Zip :: "('a, 's) chan \<Rightarrow> ('b, 't) chan \<Rightarrow> ('a \<Rightarrow> 'b \<Rightarrow> 'c)
    \<Rightarrow> ('c, ('a, 's) chan \<times> ('b, 't) chan) chan" where
  "Zip xs ys mapper =
     (if is_nil xs \<or> is_nil ys then NilChan else Chan (Zip_body mapper) (Running (xs, ys)))"

text \<open>\<^verbatim>\<open>Filter\<close>: the loop runs on until an element passes the predicate.\<close>

partial_function (option) Filter_body :: "('a \<Rightarrow> bool) \<Rightarrow> ('a, 's) chan
    \<Rightarrow> ('a, ('a, 's) chan) out_op option" where
  "Filter_body predicate source =
     (case receive source of
        None \<Rightarrow> None
      | Some (Closed src') \<Rightarrow> Some (CloseOut src')
      | Some (Val s src') \<Rightarrow>
          if predicate s then Some (Send s src') else Filter_body predicate src')"

definition Filter :: "('a, 's) chan \<Rightarrow> ('a \<Rightarrow> bool) \<Rightarrow> ('a, ('a, 's) chan) chan" where
  "Filter source predicate =
     (if is_nil source then NilChan else Chan (Filter_body predicate) (Running source))"

text \<open>
  \<^verbatim>\<open>Take\<close>: there is no test for a nil source. The element is received first,
  then \<^verbatim>\<open>taken\<close> is incremented and compared with \<^verbatim>\<open>count\<close>.
\<close>

fun Take_body :: "go_int \<Rightarrow> go_int \<times> ('a, 's) chan
    \<Rightarrow> ('a, go_int \<times> ('a, 's) chan) out_op option" where
  "Take_body count (taken, source) =
     (case receive source of
        None \<Rightarrow> None
      | Some (Closed src') \<Rightarrow> Some (CloseOut (taken, src'))
      | Some (Val s src') \<Rightarrow>
          (let taken' = taken + 1 in
           if count <s taken' then Some (CloseOut (taken', src'))
           else Some (Send s (taken', src'))))"

definition Take :: "('a, 's) chan \<Rightarrow> go_int \<Rightarrow> ('a, go_int \<times> ('a, 's) chan) chan" where
  "Take source count = Chan (Take_body count) (Running (0, source))"

text \<open>\<^verbatim>\<open>Skip\<close>: no test for a nil source either.\<close>

partial_function (option) Skip_loop :: "go_int \<Rightarrow> go_int \<Rightarrow> ('a, 's) chan
    \<Rightarrow> ('a, go_int \<times> ('a, 's) chan) out_op option" where
  "Skip_loop count skipped source =
     (case receive source of
        None \<Rightarrow> None
      | Some (Closed src') \<Rightarrow> Some (CloseOut (skipped, src'))
      | Some (Val s src') \<Rightarrow>
          (let skipped' = skipped + 1 in
           if count <s skipped' then Some (Send s (skipped', src'))
           else Skip_loop count skipped' src'))"

fun Skip_body :: "go_int \<Rightarrow> go_int \<times> ('a, 's) chan
    \<Rightarrow> ('a, go_int \<times> ('a, 's) chan) out_op option" where
  "Skip_body count (skipped, source) = Skip_loop count skipped source"

definition Skip :: "('a, 's) chan \<Rightarrow> go_int \<Rightarrow> ('a, go_int \<times> ('a, 's) chan) chan" where
  "Skip source count = Chan (Skip_body count) (Running (0, source))"

section \<open>Aggregators\<close>

text \<open>
  The aggregators run on the caller's goroutine; \<open>None\<close> is a call that never returns.
  The zero value of the element type is the \<open>0\<close> of class \<open>zero\<close>. The order that
  \<^verbatim>\<open>cmp.Ordered\<close> gives the element type of \<^verbatim>\<open>Max\<close> is a parameter, \<open>lt\<close>: Go's \<open><\<close> at
  that type, which at \<^verbatim>\<open>int\<close> is the signed order \<open><s\<close> of \<open>64 word\<close> (floating point with
  its NaN is left out); the test \<^verbatim>\<open>s > max\<close> is \<open>lt mx s\<close>. The element type of \<^verbatim>\<open>Sum\<close> is
  any type with \<open>+\<close> and \<open>0\<close>, such as \<open>64 word\<close>
  for \<^verbatim>\<open>int\<close> and \<^verbatim>\<open>int64\<close>, whose addition wraps around as Go's does. \<^verbatim>\<open>Max\<close> and
  \<^verbatim>\<open>Sum\<close> are named \<open>Max_chan\<close> and \<open>Sum_chan\<close> here.
\<close>

partial_function (option) Max_loop :: "('a \<Rightarrow> 'a \<Rightarrow> bool) \<Rightarrow> 'a \<Rightarrow> bool \<Rightarrow> ('a, 's) chan
    \<Rightarrow> 'a option" where
  "Max_loop lt mx first source =
     (case receive source of
        None \<Rightarrow> None
      | Some (Closed src') \<Rightarrow> Some mx
      | Some (Val s src') \<Rightarrow>
          Max_loop lt (if first \<or> lt mx s then s else mx) False src')"

definition Max_chan :: "('a \<Rightarrow> 'a \<Rightarrow> bool) \<Rightarrow> ('a :: zero, 's) chan \<Rightarrow> 'a option" where
  "Max_chan lt source = Max_loop lt 0 True source"

definition First :: "('a :: zero, 's) chan \<Rightarrow> 'a option" where
  "First source =
     (case receive source of
        None \<Rightarrow> None
      | Some (Val first src') \<Rightarrow> Some first
      | Some (Closed src') \<Rightarrow> Some 0)"

partial_function (option) Last_loop :: "'a \<Rightarrow> ('a, 's) chan \<Rightarrow> 'a option" where
  "Last_loop lst source =
     (case receive source of
        None \<Rightarrow> None
      | Some (Closed src') \<Rightarrow> Some lst
      | Some (Val s src') \<Rightarrow> Last_loop s src')"

definition Last :: "('a :: zero, 's) chan \<Rightarrow> 'a option" where
  "Last source = Last_loop 0 source"

partial_function (option) Count_loop :: "go_int \<Rightarrow> ('a, 's) chan \<Rightarrow> go_int option" where
  "Count_loop count source =
     (case receive source of
        None \<Rightarrow> None
      | Some (Closed src') \<Rightarrow> Some count
      | Some (Val s src') \<Rightarrow> Count_loop (count + 1) src')"

definition Count :: "('a, 's) chan \<Rightarrow> go_int option" where
  "Count source = Count_loop 0 source"

partial_function (option) Sum_loop :: "'a \<Rightarrow> ('a :: plus, 's) chan \<Rightarrow> 'a option" where
  "Sum_loop ret source =
     (case receive source of
        None \<Rightarrow> None
      | Some (Closed src') \<Rightarrow> Some ret
      | Some (Val s src') \<Rightarrow> Sum_loop (ret + s) src')"

definition Sum_chan :: "('a :: {zero, plus}, 's) chan \<Rightarrow> 'a option" where
  "Sum_chan source = Sum_loop 0 source"

section \<open>Observing a channel\<close>

text \<open>
  The consumer loop \<^verbatim>\<open>for elem := range source\<close> (as in \<^verbatim>\<open>concatInts\<close> of demo.go),
  collecting what it receives: \<open>Some (vs, c)\<close> when the values \<open>vs\<close> arrive in this order
  and then the close is observed, the channel and everything upstream being left as \<open>c\<close>;
  \<open>None\<close> when the loop never ends.
\<close>

partial_function (option) drain :: "('a, 's) chan \<Rightarrow> ('a list \<times> ('a, 's) chan) option" where
  "drain source =
     (case receive source of
        None \<Rightarrow> None
      | Some (Closed src') \<Rightarrow> Some ([], src')
      | Some (Val s src') \<Rightarrow> Option.bind (drain src') (\<lambda>(vs, c). Some (s # vs, c)))"

definition delivered :: "('a, 's) chan \<Rightarrow> 'a list option" where
  "delivered source = map_option fst (drain source)"

text \<open>The first \<open>n\<close> receives, when each of them yields a value.\<close>

fun receives :: "nat \<Rightarrow> ('a, 's) chan \<Rightarrow> ('a list \<times> ('a, 's) chan) option" where
  "receives 0 source = Some ([], source)"
| "receives (Suc n) source =
     (case receive source of
        Some (Val s src') \<Rightarrow> Option.bind (receives n src') (\<lambda>(vs, c). Some (s # vs, c))
      | _ \<Rightarrow> None)"

declare Filter_body.simps [code] Skip_loop.simps [code] Max_loop.simps [code]
  Last_loop.simps [code] Count_loop.simps [code] Sum_loop.simps [code] drain.simps [code]

section \<open>Basic facts\<close>

lemma drain_blocked: "receive c = None \<Longrightarrow> drain c = None"
  by (subst drain.simps) simp

lemma drain_closed: "receive c = Some (Closed c') \<Longrightarrow> drain c = Some ([], c')"
  by (subst drain.simps) simp

lemma drain_value:
  "receive c = Some (Val v c') \<Longrightarrow> drain c = Option.bind (drain c') (\<lambda>(vs, k). Some (v # vs, k))"
  by (subst drain.simps) simp

lemma receive_From_Nil: "receive (From []) = Some (Closed (Chan From_body (Exited [])))"
  by (simp add: From_def)

lemma receive_From_Cons: "receive (From (x # xs)) = Some (Val x (From xs))"
  by (simp add: From_def)

lemma is_nil_From: "\<not> is_nil (From L)"
  by (simp add: From_def)

lemma drain_From: "drain (From L) = Some (L, Chan From_body (Exited []))"
  by (induction L) (simp_all add: drain_closed receive_From_Nil drain_value receive_From_Cons)

lemma drain_Nil_iff: "drain c = Some ([], c') \<longleftrightarrow> receive c = Some (Closed c')"
  by (subst drain.simps) (auto split: option.splits recv.splits simp: Option.bind_eq_Some_conv)

lemma drain_Cons_iff:
  "drain c = Some (v # vs, c') \<longleftrightarrow> (\<exists>c1. receive c = Some (Val v c1) \<and> drain c1 = Some (vs, c'))"
  by (subst drain.simps) (auto split: option.splits recv.splits simp: Option.bind_eq_Some_conv)

lemma sint_of_nat_small:
  "k < 2 ^ 63 \<Longrightarrow> sint (of_nat k :: go_int) = int k"
  by (simp add: signed_of_nat signed_take_bit_int_eq_self)

lemma sless_of_nat:
  assumes "0 \<le>s n" and "k < 2 ^ 63"
  shows "n <s (of_nat k :: go_int) \<longleftrightarrow> nat (sint n) < k"
proof -
  from assms(1) have "0 \<le> sint n" by (simp add: word_sle_eq)
  then have "sint n < int k \<longleftrightarrow> nat (sint n) < k" by arith
  with assms(2) show ?thesis by (simp add: word_sless_alt sint_of_nat_small)
qed

lemma drain_cong: "receive c = receive c' \<Longrightarrow> drain c = drain c'"
  by (subst drain.simps, subst (2) drain.simps) simp

section \<open>Map\<close>

lemma receive_Map:
  "\<not> is_nil source \<Longrightarrow>
   receive (Map source f) =
     (case receive source of
        None \<Rightarrow> None
      | Some (Val s src') \<Rightarrow> Some (Val (f s) (Chan (Map_body f) (Running src')))
      | Some (Closed src') \<Rightarrow> Some (Closed (Chan (Map_body f) (Exited src'))))"
  by (simp add: Map_def Map_body_def split: option.splits recv.splits)

lemma drain_Map_running_From:
  "drain (Chan (Map_body f) (Running (From L))) =
     Some (map f L, Chan (Map_body f) (Exited (Chan From_body (Exited []))))"
proof (induction L)
  case Nil
  have "receive (Chan (Map_body f) (Running (From []))) =
      Some (Closed (Chan (Map_body f) (Exited (Chan From_body (Exited [])))))"
    by (simp add: Map_body_def receive_From_Nil)
  then show ?case by (simp add: drain_closed)
next
  case (Cons x xs)
  have "receive (Chan (Map_body f) (Running (From (x # xs)))) =
      Some (Val (f x) (Chan (Map_body f) (Running (From xs))))"
    by (simp add: Map_body_def receive_From_Cons)
  then show ?case using Cons.IH by (simp add: drain_value)
qed

text \<open>
  C5: for every list \<open>L\<close> and every function \<open>f\<close>, a consumer of \<open>Map (From L) f\<close> receives
  exactly \<open>map f L\<close>, one output per input and in input order, and then observes the
  close; at that point the goroutine of \<open>Map\<close> has returned and its input is closed too
  (the goroutine of \<open>From\<close> has returned with nothing left to send).
\<close>

theorem Map_From_delivers:
  "drain (Map (From L) f) =
     Some (map f L, Chan (Map_body f) (Exited (Chan From_body (Exited []))))"
  by (simp add: Map_def is_nil_From drain_Map_running_From)

section \<open>Take\<close>

lemma drain_Take_running_From:
  assumes "0 \<le>s n" and "k + length L < 2 ^ 63"
  shows "drain (Chan (Take_body n) (Running (of_nat k, From L))) =
     Some (take (nat (sint n) - k) L,
           Chan (Take_body n) (Exited
             (if length L \<le> nat (sint n) - k then (of_nat (k + length L), Chan From_body (Exited []))
              else (of_nat (Suc (max k (nat (sint n)))), From (drop (Suc (nat (sint n) - k)) L)))))"
  using assms(2)
proof (induction L arbitrary: k)
  case Nil
  have "receive (Chan (Take_body n) (Running (of_nat k, From []))) =
      Some (Closed (Chan (Take_body n) (Exited (of_nat k, Chan From_body (Exited [])))))"
    by (simp add: receive_From_Nil)
  from drain_closed [OF this] show ?case by simp
next
  case (Cons x xs)
  from Cons.prems have k: "Suc k < 2 ^ 63" and k': "Suc k + length xs < 2 ^ 63" by simp_all
  have cmp: "n <s (of_nat k + 1 :: go_int) \<longleftrightarrow> nat (sint n) \<le> k"
    using sless_of_nat [OF assms(1) k] by (simp add: less_Suc_eq_le add.commute)
  show ?case
  proof (cases "nat (sint n) \<le> k")
    case True
    have "receive (Chan (Take_body n) (Running (of_nat k, From (x # xs)))) =
        Some (Closed (Chan (Take_body n) (Exited (of_nat k + 1, From xs))))"
      using True by (simp add: receive_From_Cons cmp)
    from drain_closed [OF this] show ?thesis using True by (simp add: max_def)
  next
    case False
    have "receive (Chan (Take_body n) (Running (of_nat k, From (x # xs)))) =
        Some (Val x (Chan (Take_body n) (Running (of_nat (Suc k), From xs))))"
      using False by (simp add: receive_From_Cons cmp)
    note step = drain_value [OF this]
    have "nat (sint n) - k = Suc (nat (sint n) - Suc k)" using False by arith
    then show ?thesis using Cons.IH [OF k'] False
      by (simp add: step max_def)
  qed
qed

text \<open>
  C3: for every list \<open>L\<close> (as long as a Go slice can be: fewer than \<open>2 ^ 63\<close> elements)
  and every count \<open>n \<ge> 0\<close>, a consumer of \<open>Take (From L) n\<close> receives exactly the first
  \<open>min n (length L)\<close> elements of \<open>L\<close>, in order, and then observes the close. With the
  count \<open>0\<close> the first receive on the output already reports the close: no value is
  sent.
\<close>

theorem Take_From_delivers:
  assumes "0 \<le>s n" and "length L < 2 ^ 63"
  shows "delivered (Take (From L) n) = Some (take (min (nat (sint n)) (length L)) L) \<and>
    (\<exists>c. receive (Take (From L) 0) = Some (Closed c))"
proof -
  from assms(2) have len: "0 + length L < 2 ^ 63" by simp
  have "take (min (nat (sint n)) (length L)) L = take (nat (sint n)) L"
    by (simp add: min_def)
  then have "delivered (Take (From L) n) = Some (take (min (nat (sint n)) (length L)) L)"
    using drain_Take_running_From [OF assms(1) len] by (simp add: delivered_def Take_def)
  moreover have "\<exists>c. receive (Take (From L) 0) = Some (Closed c)"
    by (cases L) (simp_all add: Take_def receive_From_Nil receive_From_Cons word_sless_alt)
  ultimately show ?thesis by simp
qed

theorem Take_From_delivers_witness:
  "0 \<le>s (2 :: go_int) \<and> length [5, 6, 7 :: int] < 2 ^ 63 \<and>
   delivered (Take (From [5, 6, 7 :: int]) 2) = Some [5, 6] \<and>
   (\<exists>c. receive (Take (From [5, 6, 7 :: int]) 0) = Some (Closed c))"
  using Take_From_delivers [of 2 "[5, 6, 7 :: int]"] by (simp add: word_sle_eq)

section \<open>Skip\<close>

lemma Skip_loop_blocked: "receive c = None \<Longrightarrow> Skip_loop n k c = None"
  by (subst Skip_loop.simps) simp

lemma Skip_loop_closed:
  "receive c = Some (Closed c') \<Longrightarrow> Skip_loop n k c = Some (CloseOut (k, c'))"
  by (subst Skip_loop.simps) simp

lemma Skip_loop_value:
  "receive c = Some (Val v c') \<Longrightarrow>
   Skip_loop n k c =
     (if n <s k + 1 then Some (Send v (k + 1, c')) else Skip_loop n (k + 1) c')"
  by (subst Skip_loop.simps) (simp add: Let_def)

lemma drain_Skip_running_From:
  assumes "0 \<le>s n" and "k + length L < 2 ^ 63"
  shows "drain (Chan (Skip_body n) (Running (of_nat k, From L))) =
     Some (drop (nat (sint n) - k) L,
           Chan (Skip_body n) (Exited (of_nat (k + length L), Chan From_body (Exited []))))"
  using assms(2)
proof (induction L arbitrary: k)
  case Nil
  have "receive (Chan (Skip_body n) (Running (of_nat k, From []))) =
      Some (Closed (Chan (Skip_body n) (Exited (of_nat k, Chan From_body (Exited [])))))"
    by (simp add: Skip_loop_closed [OF receive_From_Nil])
  from drain_closed [OF this] show ?case by simp
next
  case (Cons x xs)
  from Cons.prems have k: "Suc k < 2 ^ 63" and k': "Suc k + length xs < 2 ^ 63" by simp_all
  have cmp: "n <s (of_nat (Suc k) :: go_int) \<longleftrightarrow> nat (sint n) \<le> k"
    using sless_of_nat [OF assms(1) k] by (simp add: less_Suc_eq_le)
  have suc: "of_nat k + 1 = (of_nat (Suc k) :: go_int)" by simp
  note loop = Skip_loop_value [OF receive_From_Cons, of n "of_nat k" x xs, unfolded suc]
  show ?case
  proof (cases "nat (sint n) \<le> k")
    case True
    have "receive (Chan (Skip_body n) (Running (of_nat k, From (x # xs)))) =
        Some (Val x (Chan (Skip_body n) (Running (of_nat (Suc k), From xs))))"
      using True by (simp add: loop cmp del: of_nat_Suc)
    note step = drain_value [OF this]
    show ?thesis using Cons.IH [OF k'] True by (simp add: step del: of_nat_Suc)
  next
    case False
    have "receive (Chan (Skip_body n) (Running (of_nat k, From (x # xs)))) =
        receive (Chan (Skip_body n) (Running (of_nat (Suc k), From xs)))"
      using False by (simp add: loop cmp del: of_nat_Suc)
    note step = drain_cong [OF this]
    have "nat (sint n) - k = Suc (nat (sint n) - Suc k)" using False by arith
    then show ?thesis using Cons.IH [OF k'] by (simp add: step del: of_nat_Suc)
  qed
qed


text \<open>
  C6: for every list \<open>L\<close> (fewer than \<open>2 ^ 63\<close> elements) and every count \<open>n \<ge> 0\<close>, a
  consumer of \<open>Skip (From L) n\<close> receives exactly \<open>L\<close> without its first \<open>min n (length L)\<close>
  elements, the others unchanged and in order, and then observes the close; at that
  point the input is closed as well. With the count \<open>0\<close> the whole of \<open>L\<close> is forwarded.
\<close>

theorem Skip_From_delivers:
  assumes "0 \<le>s n" and "length L < 2 ^ 63"
  shows "drain (Skip (From L) n) =
      Some (drop (min (nat (sint n)) (length L)) L,
            Chan (Skip_body n) (Exited (of_nat (length L), Chan From_body (Exited [])))) \<and>
    delivered (Skip (From L) 0) = Some L"
proof -
  from assms(2) have len: "0 + length L < 2 ^ 63" by simp
  have zero: "0 \<le>s (0 :: go_int)" by simp
  have "drop (min (nat (sint n)) (length L)) L = drop (nat (sint n)) L"
    by (simp add: min_def)
  then have "drain (Skip (From L) n) =
      Some (drop (min (nat (sint n)) (length L)) L,
            Chan (Skip_body n) (Exited (of_nat (length L), Chan From_body (Exited []))))"
    using drain_Skip_running_From [OF assms(1) len] by (simp add: Skip_def)
  moreover have "delivered (Skip (From L) 0) = Some L"
    using drain_Skip_running_From [OF zero len] by (simp add: delivered_def Skip_def)
  ultimately show ?thesis by simp
qed

theorem Skip_From_delivers_witness:
  "0 \<le>s (2 :: go_int) \<and> length [5, 6, 7 :: int] < 2 ^ 63 \<and>
   drain (Skip (From [5, 6, 7 :: int]) 2) =
     Some ([7], Chan (Skip_body 2) (Exited (3, Chan From_body (Exited [])))) \<and>
   delivered (Skip (From [5, 6, 7 :: int]) 0) = Some [5, 6, 7]"
  using Skip_From_delivers [of 2 "[5, 6, 7 :: int]"] by (simp add: word_sle_eq)

section \<open>Zip\<close>

lemma drain_Zip_running_From:
  "drain (Chan (Zip_body f) (Running (From A, From B))) =
     Some (map2 f A B,
           Chan (Zip_body f) (Exited
             (if length A \<le> length B then Chan From_body (Exited [])
              else From (drop (Suc (length B)) A),
              if length B \<le> length A then Chan From_body (Exited [])
              else From (drop (Suc (length A)) B))))"
proof (induction A arbitrary: B)
  case Nil
  show ?case
  proof (cases B)
    case Nil
    have "receive (Chan (Zip_body f) (Running (From [], From B))) =
        Some (Closed (Chan (Zip_body f) (Exited (Chan From_body (Exited []), Chan From_body (Exited [])))))"
      using Nil by (simp add: receive_From_Nil)
    from drain_closed [OF this] show ?thesis using Nil by simp
  next
    case (Cons y ys)
    have "receive (Chan (Zip_body f) (Running (From [], From B))) =
        Some (Closed (Chan (Zip_body f) (Exited (Chan From_body (Exited []), From ys))))"
      using Cons by (simp add: receive_From_Nil receive_From_Cons)
    from drain_closed [OF this] show ?thesis using Cons by simp
  qed
next
  case (Cons x xs)
  note IH = Cons.IH
  show ?case
  proof (cases B)
    case Nil
    have "receive (Chan (Zip_body f) (Running (From (x # xs), From B))) =
        Some (Closed (Chan (Zip_body f) (Exited (From xs, Chan From_body (Exited [])))))"
      using Nil by (simp add: receive_From_Nil receive_From_Cons)
    from drain_closed [OF this] show ?thesis using Nil by simp
  next
    case (Cons y ys)
    have "receive (Chan (Zip_body f) (Running (From (x # xs), From B))) =
        Some (Val (f x y) (Chan (Zip_body f) (Running (From xs, From ys))))"
      using Cons by (simp add: receive_From_Nil receive_From_Cons)
    note step = drain_value [OF this, unfolded Cons]
    show ?thesis using Cons IH [of ys] by (simp add: step)
  qed
qed

text \<open>
  C4: for all lists \<open>A\<close> and \<open>B\<close> and every combiner \<open>f\<close>, a consumer of
  \<open>Zip (From A) (From B) f\<close> receives exactly \<open>min (length A) (length B)\<close> values, the
  \<open>i\<close>-th being \<open>f (A ! i) (B ! i)\<close>, and then observes the close. The longer input is
  not drained: when the output is closed, the goroutine of the shorter input has
  returned, and that of a longer input still holds every element after the one at
  index \<open>length\<close> of the shorter list, unsent.
\<close>

theorem Zip_From_delivers:
  "drain (Zip (From A) (From B) f) =
     Some (map2 f A B,
           Chan (Zip_body f) (Exited
             (if length A \<le> length B then Chan From_body (Exited [])
              else From (drop (Suc (length B)) A),
              if length B \<le> length A then Chan From_body (Exited [])
              else From (drop (Suc (length A)) B)))) \<and>
   length (map2 f A B) = min (length A) (length B) \<and>
   (\<forall>i < min (length A) (length B). map2 f A B ! i = f (A ! i) (B ! i))"
  by (simp add: Zip_def is_nil_From drain_Zip_running_From)

theorem Zip_From_delivers_witness:
  "drain (Zip (From [1, 2, 3 :: int]) (From [10, 20, 30, 40, 50 :: int]) (+)) =
     Some ([11, 22, 33],
           Chan (Zip_body (+)) (Exited (Chan From_body (Exited []), From [50]))) \<and>
   map2 (+) [1, 2, 3 :: int] [10, 20, 30, 40, 50 :: int] ! 2 = 3 + 30"
  using Zip_From_delivers [of "[1, 2, 3 :: int]" "[10, 20, 30, 40, 50 :: int]" "(+)"]
  by simp

section \<open>Aggregators over a finite source\<close>

lemma Count_loop_From: "Count_loop k (From L) = Some (k + of_nat (length L))"
proof (induction L arbitrary: k)
  case Nil
  show ?case by (subst Count_loop.simps) (simp add: receive_From_Nil)
next
  case (Cons x xs)
  have "Count_loop k (From (x # xs)) = Count_loop (k + 1) (From xs)"
    by (subst Count_loop.simps) (simp add: receive_From_Cons)
  then show ?case by (simp add: Cons.IH)
qed

lemma Sum_loop_From: "Sum_loop r (From L) = Some (foldl (+) r L)"
proof (induction L arbitrary: r)
  case Nil
  show ?case by (subst Sum_loop.simps) (simp add: receive_From_Nil)
next
  case (Cons x xs)
  have "Sum_loop r (From (x # xs)) = Sum_loop (r + x) (From xs)"
    by (subst Sum_loop.simps) (simp add: receive_From_Cons)
  then show ?case by (simp add: Cons.IH)
qed

lemma foldl_plus_sum_list: "foldl (+) r L = r + sum_list (L :: 'a :: monoid_add list)"
  by (induction L arbitrary: r) (simp_all add: add.assoc)

lemma Max_loop_later:
  assumes "irreflp lt" and "transp lt" and "totalp lt"
  shows "drain source = Some (xs, c) \<Longrightarrow>
    \<exists>m. Max_loop lt mx False source = Some m \<and> m \<in> insert mx (set xs) \<and>
      \<not> lt m mx \<and> (\<forall>y \<in> set xs. \<not> lt m y)"
proof (induction xs arbitrary: source mx)
  case Nil
  then have "receive source = Some (Closed c)" by (simp add: drain_Nil_iff)
  then have "Max_loop lt mx False source = Some mx" by (subst Max_loop.simps) simp
  then show ?case using irreflpD [OF assms(1)] by simp
next
  case (Cons v vs)
  then obtain c1 where r: "receive source = Some (Val v c1)" and d: "drain c1 = Some (vs, c)"
    by (auto simp: drain_Cons_iff)
  define mx' where "mx' = (if lt mx v then v else mx)"
  have step: "Max_loop lt mx False source = Max_loop lt mx' False c1"
    unfolding mx'_def by (subst Max_loop.simps) (simp add: r)
  from Cons.IH [OF d, of mx'] obtain m where
    res: "Max_loop lt mx' False c1 = Some m"
    and mem: "m \<in> insert mx' (set vs)"
    and top: "\<not> lt m mx'"
    and rest: "\<forall>y \<in> set vs. \<not> lt m y"
    by blast
  have "m \<in> insert mx (set (v # vs))" using mem by (auto simp: mx'_def split: if_splits)
  moreover have "\<not> lt m mx" and "\<not> lt m v"
  proof -
    show "\<not> lt m mx"
    proof (cases "lt mx v")
      case True
      then have "\<not> lt m v" using top by (simp add: mx'_def)
      then show ?thesis using True transpD [OF assms(2), of m mx v] by blast
    next
      case False
      then show ?thesis using top by (simp add: mx'_def)
    qed
    show "\<not> lt m v"
    proof (cases "lt mx v")
      case True
      then show ?thesis using top by (simp add: mx'_def)
    next
      case False
      then have nm: "\<not> lt m mx" using top by (simp add: mx'_def)
      show ?thesis
      proof
        assume mv: "lt m v"
        from False mv have "m \<noteq> mx" by blast
        with nm totalpD [OF assms(3), of m mx] have "lt mx m" by blast
        with mv transpD [OF assms(2), of mx m v] False show False by blast
      qed
    qed
  qed
  ultimately show ?case using res rest step by simp
qed

lemma Max_loop_first:
  assumes "irreflp lt" and "transp lt" and "totalp lt"
    and "drain source = Some (x # xs, c)"
  shows "\<exists>m. Max_loop lt mx True source = Some m \<and> m \<in> set (x # xs) \<and>
    (\<forall>y \<in> set (x # xs). \<not> lt m y)"
proof -
  from assms(4) obtain c1 where
    r: "receive source = Some (Val x c1)" and d: "drain c1 = Some (xs, c)"
    by (auto simp: drain_Cons_iff)
  have "Max_loop lt mx True source = Max_loop lt x False c1"
    by (subst Max_loop.simps) (simp add: r)
  then show ?thesis using Max_loop_later [OF assms(1-3) d, of x] by auto
qed

lemma signed_order_total:
  "irreflp ((<s) :: go_int \<Rightarrow> go_int \<Rightarrow> bool)"
  "transp ((<s) :: go_int \<Rightarrow> go_int \<Rightarrow> bool)"
  "totalp ((<s) :: go_int \<Rightarrow> go_int \<Rightarrow> bool)"
  by (auto intro!: irreflpI transpI totalpI)

lemma Last_loop_drain:
  "drain source = Some (xs, c) \<Longrightarrow> Last_loop l source = Some (last (l # xs))"
proof (induction xs arbitrary: source l)
  case Nil
  then have "receive source = Some (Closed c)" by (simp add: drain_Nil_iff)
  then show ?case by (subst Last_loop.simps) simp
next
  case (Cons v vs)
  then obtain c1 where r: "receive source = Some (Val v c1)" and d: "drain c1 = Some (vs, c)"
    by (auto simp: drain_Cons_iff)
  have "Last_loop l source = Last_loop v c1"
    by (subst Last_loop.simps) (simp add: r)
  then show ?case using Cons.IH [OF d, of v] by simp
qed

text \<open>
  C7: for every list \<open>L\<close>, \<open>Count (From L)\<close> returns the length of \<open>L\<close> as a Go \<open>int\<close>
  (for a list as long as a slice can be, the signed value of the result is exactly
  \<open>length L\<close>), and \<open>Sum_chan (From M)\<close> returns the sum of the elements of \<open>M\<close> under the
  addition of the element type (for a fixed-width integer type this is two's
  complement addition); both return \<open>0\<close> for the empty list.
\<close>

theorem Count_Sum_From:
  "Count (From L) = Some (of_nat (length L)) \<and>
   (length L < 2 ^ 63 \<longrightarrow> map_option sint (Count (From L)) = Some (int (length L))) \<and>
   Sum_chan (From M) = Some (sum_list (M :: 'a :: monoid_add list)) \<and>
   Count (From []) = Some 0 \<and>
   Sum_chan (From ([] :: 'a list)) = Some 0"
  by (simp add: Count_def Sum_chan_def Count_loop_From Sum_loop_From foldl_plus_sum_list
      sint_of_nat_small)

theorem Count_Sum_From_witness:
  "length [1, 2, 3, 6, 4, 1, 9, 5, 8 :: go_int] < 2 ^ 63 \<and>
   Count (From [1, 2, 3, 6, 4, 1, 9, 5, 8 :: go_int]) = Some 9 \<and>
   map_option sint (Count (From [1, 2, 3, 6, 4, 1, 9, 5, 8 :: go_int])) = Some 9 \<and>
   Sum_chan (From [1, 2, 3, 6, 4, 1, 9, 5, 8 :: go_int]) = Some 39"
  using Count_Sum_From [of "[1, 2, 3, 6, 4, 1, 9, 5, 8 :: go_int]"
      "[1, 2, 3, 6, 4, 1, 9, 5, 8 :: go_int]"]
  by auto

text \<open>
  C8: on an input that is closed before any value arrives, \<open>First\<close>, \<open>Last\<close> and
  \<open>Max_chan\<close> return the zero value of the element type. The first value that \<open>Max_chan\<close>
  receives becomes the running maximum whatever it is (the zero value is not compared
  with the elements). On an input that delivers the values \<open>x # xs\<close> and is then closed,
  \<open>Max_chan\<close> returns their maximum in the total order of the element type: one of the
  values, with every other value below it. For Go's \<^verbatim>\<open>int\<close> that order is the signed
  one: no value delivered has a greater signed value than the result.
\<close>

theorem empty_defaults_and_Max:
  "(receive src = Some (Closed c) \<longrightarrow>
      First src = Some 0 \<and> Last src = Some 0 \<and> Max_chan lt src = Some 0) \<and>
   (receive src' = Some (Val x c1) \<longrightarrow> Max_chan lt src' = Max_loop lt x False c1) \<and>
   (irreflp lt \<and> transp lt \<and> totalp lt \<and> drain src' = Some (x # xs, c') \<longrightarrow>
      (\<exists>m. Max_chan lt src' = Some m \<and> m \<in> set (x # xs) \<and>
         (\<forall>y \<in> set (x # xs). y = m \<or> lt y m))) \<and>
   (drain srci = Some (xi # xis, ci) \<longrightarrow>
      (\<exists>m. Max_chan (<s) srci = Some m \<and> m \<in> set (xi # xis) \<and>
         (\<forall>y \<in> set (xi # xis). sint y \<le> sint (m :: go_int))))"
proof (intro conjI impI)
  assume r: "receive src = Some (Closed c)"
  show "First src = Some 0" by (simp add: First_def r)
  show "Last src = Some 0" unfolding Last_def by (subst Last_loop.simps) (simp add: r)
  show "Max_chan lt src = Some 0"
    unfolding Max_chan_def by (subst Max_loop.simps) (simp add: r)
next
  assume r: "receive src' = Some (Val x c1)"
  show "Max_chan lt src' = Max_loop lt x False c1"
    unfolding Max_chan_def by (subst Max_loop.simps) (simp add: r)
next
  assume a: "irreflp lt \<and> transp lt \<and> totalp lt \<and> drain src' = Some (x # xs, c')"
  then have tot: "totalp lt" by simp
  from a Max_loop_first [of lt src' x xs c' 0] obtain m where
    res: "Max_chan lt src' = Some m" and mem: "m \<in> set (x # xs)"
    and top: "\<forall>y \<in> set (x # xs). \<not> lt m y"
    unfolding Max_chan_def by blast
  have "\<forall>y \<in> set (x # xs). y = m \<or> lt y m"
  proof
    fix y assume "y \<in> set (x # xs)"
    with top have "\<not> lt m y" by blast
    with totalpD [OF tot, of y m] show "y = m \<or> lt y m" by blast
  qed
  with res mem show "\<exists>m. Max_chan lt src' = Some m \<and> m \<in> set (x # xs) \<and>
      (\<forall>y \<in> set (x # xs). y = m \<or> lt y m)" by blast
next
  assume d: "drain srci = Some (xi # xis, ci)"
  from Max_loop_first [OF signed_order_total d, of 0] obtain m where
    res: "Max_chan (<s) srci = Some m" and mem: "m \<in> set (xi # xis)"
    and top: "\<forall>y \<in> set (xi # xis). \<not> m <s y"
    unfolding Max_chan_def by blast
  from top have "\<forall>y \<in> set (xi # xis). sint y \<le> sint m"
    by (simp add: word_sless_alt not_less)
  with res mem show "\<exists>m. Max_chan (<s) srci = Some m \<and> m \<in> set (xi # xis) \<and>
      (\<forall>y \<in> set (xi # xis). sint y \<le> sint m)" by blast
qed

theorem empty_defaults_and_Max_witness:
  "receive (From ([] :: go_int list)) = Some (Closed (Chan From_body (Exited []))) \<and>
   First (From ([] :: go_int list)) = Some 0 \<and> Last (From ([] :: go_int list)) = Some 0 \<and>
   Max_chan (<s) (From ([] :: go_int list)) = Some 0 \<and>
   receive (From [- 3, 5 :: go_int]) = Some (Val (- 3) (From [5])) \<and>
   Max_chan (<s) (From [- 3, 5 :: go_int]) = Max_loop (<s) (- 3) False (From [5]) \<and>
   irreflp ((<s) :: go_int \<Rightarrow> go_int \<Rightarrow> bool) \<and> transp ((<s) :: go_int \<Rightarrow> go_int \<Rightarrow> bool) \<and>
   totalp ((<s) :: go_int \<Rightarrow> go_int \<Rightarrow> bool) \<and>
   drain (From [- 3, 5 :: go_int]) = Some ([- 3, 5], Chan From_body (Exited [])) \<and>
   Max_chan (<s) (From [- 3, 5 :: go_int]) = Some 5"
proof -
  note t = empty_defaults_and_Max [of "From ([] :: go_int list)" "Chan From_body (Exited [])"
      "(<s)" "From [- 3, 5 :: go_int]" "- 3" "From [5]" "[5]" "Chan From_body (Exited [])"
      "From [- 3, 5 :: go_int]" "- 3" "[5]" "Chan From_body (Exited [])"]
  have e: "receive (From ([] :: go_int list)) = Some (Closed (Chan From_body (Exited [])))"
    by (rule receive_From_Nil)
  have d: "drain (From [- 3, 5 :: go_int]) = Some ([- 3, 5], Chan From_body (Exited []))"
    by (rule drain_From)
  have r: "receive (From [- 3, 5 :: go_int]) = Some (Val (- 3) (From [5]))"
    by (rule receive_From_Cons)
  note o = signed_order_total
  from t e have empty: "First (From ([] :: go_int list)) = Some 0 \<and>
      Last (From ([] :: go_int list)) = Some 0 \<and>
      Max_chan (<s) (From ([] :: go_int list)) = Some 0" by blast
  from t r have seed:
    "Max_chan (<s) (From [- 3, 5 :: go_int]) = Max_loop (<s) (- 3) False (From [5])" by blast
  from t o d obtain m where
    res: "Max_chan (<s) (From [- 3, 5 :: go_int]) = Some m"
    and mem: "m \<in> set [- 3, 5 :: go_int]"
    and top: "\<forall>y \<in> set [- 3, 5 :: go_int]. y = m \<or> y <s m"
    by blast
  from top have "5 = m \<or> 5 <s m" by simp
  with mem have "m = 5" by (auto simp: word_sless_alt)
  with res have "Max_chan (<s) (From [- 3, 5 :: go_int]) = Some 5" by simp
  with empty seed e d r o show ?thesis by blast
qed

section \<open>Fibonaccis\<close>

lemma receives_Fibonaccis_Loop:
  "\<exists>vs st. receives n (Chan Fibonaccis_body (Running (Loop, a, b))) =
       Some (vs, Chan Fibonaccis_body (Running st)) \<and>
     length vs = n \<and>
     (0 < n \<longrightarrow> vs ! 0 = a + b) \<and>
     (1 < n \<longrightarrow> vs ! 1 = b + (a + b)) \<and>
     (\<forall>i. i + 2 < n \<longrightarrow> vs ! (i + 2) = vs ! i + vs ! (i + 1))"
proof (induction n arbitrary: a b)
  case 0
  show ?case by simp
next
  case (Suc n)
  from Suc.IH [of b "a + b"] obtain vs st where
    r: "receives n (Chan Fibonaccis_body (Running (Loop, b, a + b))) =
          Some (vs, Chan Fibonaccis_body (Running st))"
    and len: "length vs = n"
    and v0: "0 < n \<longrightarrow> vs ! 0 = b + (a + b)"
    and v1: "1 < n \<longrightarrow> vs ! 1 = (a + b) + (b + (a + b))"
    and rec: "\<forall>i. i + 2 < n \<longrightarrow> vs ! (i + 2) = vs ! i + vs ! (i + 1)"
    by blast
  have "receives (Suc n) (Chan Fibonaccis_body (Running (Loop, a, b))) =
      Some ((a + b) # vs, Chan Fibonaccis_body (Running st))"
    by (simp add: r Let_def)
  moreover have "length ((a + b) # vs) = Suc n" by (simp add: len)
  moreover have "((a + b) # vs) ! 0 = a + b" by simp
  moreover have "1 < Suc n \<longrightarrow> ((a + b) # vs) ! 1 = b + (a + b)" using v0 by simp
  moreover have "\<forall>i. i + 2 < Suc n \<longrightarrow>
      ((a + b) # vs) ! (i + 2) = ((a + b) # vs) ! i + ((a + b) # vs) ! (i + 1)"
  proof (intro allI impI)
    fix i assume i: "i + 2 < Suc n"
    show "((a + b) # vs) ! (i + 2) = ((a + b) # vs) ! i + ((a + b) # vs) ! (i + 1)"
    proof (cases i)
      case 0
      with i v0 v1 show ?thesis by simp
    next
      case (Suc j)
      with i have "j + 2 < n" by simp
      with rec have "vs ! (j + 2) = vs ! j + vs ! (j + 1)" by blast
      with Suc show ?thesis by simp
    qed
  qed
  ultimately show ?case by blast
qed

lemma receives_Fibonaccis:
  "\<exists>vs st. receives n Fibonaccis = Some (vs, Chan Fibonaccis_body (Running st)) \<and>
     length vs = n \<and>
     (0 < n \<longrightarrow> vs ! 0 = 1) \<and>
     (1 < n \<longrightarrow> vs ! 1 = 1) \<and>
     (\<forall>i. i + 2 < n \<longrightarrow> vs ! (i + 2) = vs ! i + vs ! (i + 1))"
proof (cases n)
  case 0
  then show ?thesis by (simp add: Fibonaccis_def)
next
  case n1: (Suc m)
  show ?thesis
  proof (cases m)
    case 0
    with n1 show ?thesis by (simp add: Fibonaccis_def)
  next
    case (Suc k)
    from receives_Fibonaccis_Loop [of k 1 1] obtain vs st where
      r: "receives k (Chan Fibonaccis_body (Running (Loop, 1, 1))) =
            Some (vs, Chan Fibonaccis_body (Running st))"
      and len: "length vs = k"
      and v0: "0 < k \<longrightarrow> vs ! 0 = 1 + 1"
      and v1: "1 < k \<longrightarrow> vs ! 1 = 1 + (1 + 1)"
      and rec: "\<forall>i. i + 2 < k \<longrightarrow> vs ! (i + 2) = vs ! i + vs ! (i + 1)"
      by blast
    have n: "n = Suc (Suc k)" using n1 Suc by simp
    have "receives n Fibonaccis = Some (1 # 1 # vs, Chan Fibonaccis_body (Running st))"
      by (simp add: n Fibonaccis_def r)
    moreover have "length (1 # 1 # vs) = n" by (simp add: n len)
    moreover have "\<forall>i. i + 2 < n \<longrightarrow>
        (1 # 1 # vs) ! (i + 2) = (1 # 1 # vs) ! i + (1 # 1 # vs) ! (i + 1)"
    proof (intro allI impI)
      fix i assume i: "i + 2 < n"
      show "(1 # 1 # vs) ! (i + 2) = (1 # 1 # vs) ! i + (1 # 1 # vs) ! (i + 1)"
      proof (cases i)
        case 0
        with i n v0 show ?thesis by simp
      next
        case i1: (Suc j)
        show ?thesis
        proof (cases j)
          case 0
          with i1 i n v0 v1 show ?thesis by simp
        next
          case (Suc l)
          with i1 i n have "l + 2 < k" by simp
          with rec have "vs ! (l + 2) = vs ! l + vs ! (l + 1)" by blast
          with i1 Suc show ?thesis by simp
        qed
      qed
    qed
    ultimately show ?thesis by (intro exI [of _ "1 # 1 # vs"] exI [of _ st]) simp
  qed
qed

lemma Take_Fibonaccis_10:
  "drain (Take Fibonaccis 10) =
     Some ([1, 1, 2, 3, 5, 8, 13, 21, 34, 55],
           Chan (Take_body 10) (Exited (11, Chan Fibonaccis_body (Running (Loop, 55, 89)))))"
  by (simp add: Take_def Fibonaccis_def drain.simps word_sless_alt)

text \<open>
  C9: every receive from \<open>Fibonaccis\<close> yields a value, however many were made before
  (the channel is never closed: after \<open>n\<close> receives its goroutine is still running);
  the values are 1, 1, and from then on each is the sum, in 64-bit arithmetic, of the
  two before it. A consumer of \<open>Take Fibonaccis 10\<close> receives exactly
  1, 1, 2, 3, 5, 8, 13, 21, 34, 55 and then observes the close.
\<close>

theorem Fibonaccis_sequence:
  "(\<exists>vs st. receives n Fibonaccis = Some (vs, Chan Fibonaccis_body (Running st)) \<and>
      length vs = n \<and>
      (0 < n \<longrightarrow> vs ! 0 = 1) \<and>
      (1 < n \<longrightarrow> vs ! 1 = 1) \<and>
      (\<forall>i. i + 2 < n \<longrightarrow> vs ! (i + 2) = vs ! i + vs ! (i + 1))) \<and>
   delivered (Take Fibonaccis 10) = Some [1, 1, 2, 3, 5, 8, 13, 21, 34, 55]"
  using receives_Fibonaccis [of n] by (simp add: delivered_def Take_Fibonaccis_10)

theorem Fibonaccis_sequence_witness:
  "\<exists>vs st. receives 4 Fibonaccis = Some (vs, Chan Fibonaccis_body (Running st)) \<and>
      length vs = 4 \<and> vs ! 0 = 1 \<and> vs ! 1 = 1 \<and> vs ! 2 = vs ! 0 + vs ! 1 \<and>
      vs ! 3 = vs ! 1 + vs ! 2"
proof -
  have "\<exists>vs st. receives 4 Fibonaccis = Some (vs, Chan Fibonaccis_body (Running st)) \<and>
      length vs = 4 \<and>
      (0 < (4 :: nat) \<longrightarrow> vs ! 0 = 1) \<and>
      (1 < (4 :: nat) \<longrightarrow> vs ! 1 = 1) \<and>
      (\<forall>i. i + 2 < 4 \<longrightarrow> vs ! (i + 2) = vs ! i + vs ! (i + 1))"
    by (rule conjunct1 [OF Fibonaccis_sequence [of 4]])
  then show ?thesis
  proof (elim exE conjE)
    fix vs :: "go_int list" and st
    assume r: "receives 4 Fibonaccis = Some (vs, Chan Fibonaccis_body (Running st))"
      and len: "length vs = 4"
      and v0: "0 < (4 :: nat) \<longrightarrow> vs ! 0 = 1"
      and v1: "1 < (4 :: nat) \<longrightarrow> vs ! 1 = 1"
      and rec: "\<forall>i. i + 2 < 4 \<longrightarrow> vs ! (i + 2) = vs ! i + vs ! (i + 1)"
    from v0 have a0: "vs ! 0 = 1" by simp
    from v1 have a1: "vs ! 1 = 1" by simp
    from rec [rule_format, of 0] have a2: "vs ! 2 = vs ! 0 + vs ! 1"
      by (simp add: numeral_2_eq_2)
    from rec [rule_format, of 1] have a3: "vs ! 3 = vs ! 1 + vs ! 2"
      by (simp add: numeral_2_eq_2 numeral_3_eq_3)
    from r len a0 a1 a2 a3 show ?thesis by blast
  qed
qed

section \<open>Take with a negative count\<close>

text \<open>
  C10: for every source and every count \<open>n < 0\<close>, \<open>Take source n\<close> is not nil and never
  delivers a value: its goroutine makes one receive from the source and, whether that
  yields a value or reports a close, closes the output (the source is left as it is after
  that single receive); if the receive from the source never returns, neither does a
  receive from the output. What a consumer receives is the same as from
  \<open>Take source 0\<close>.
\<close>

theorem Take_negative:
  assumes "n <s 0"
  shows "\<not> is_nil (Take source n) \<and>
    receive (Take source n) =
      (case receive source of
         None \<Rightarrow> None
       | Some (Val s src') \<Rightarrow> Some (Closed (Chan (Take_body n) (Exited (1, src'))))
       | Some (Closed src') \<Rightarrow> Some (Closed (Chan (Take_body n) (Exited (0, src'))))) \<and>
    delivered (Take source n) = (if receive source = None then None else Some []) \<and>
    delivered (Take source n) = delivered (Take source 0)"
proof -
  from assms have neg: "n <s 0 + 1" by (simp add: word_sless_alt)
  have zero: "(0 :: go_int) <s 0 + 1" by (simp add: word_sless_alt)
  have r: "receive (Take source m) =
      (case receive source of
         None \<Rightarrow> None
       | Some (Val s src') \<Rightarrow> Some (Closed (Chan (Take_body m) (Exited (1, src'))))
       | Some (Closed src') \<Rightarrow> Some (Closed (Chan (Take_body m) (Exited (0, src')))))"
    if "m <s 0 + 1" for m
    using that by (simp add: Take_def split: option.splits recv.splits)
  have d: "delivered (Take source m) = (if receive source = None then None else Some [])"
    if "m <s 0 + 1" for m
    unfolding delivered_def
    by (subst drain.simps) (simp add: r [OF that] split: option.splits recv.splits)
  show ?thesis using r [OF neg] d [OF neg] d [OF zero] by (simp add: Take_def)
qed

theorem Take_negative_witness:
  "(- 1 :: go_int) <s 0 \<and>
   \<not> is_nil (Take (From [5, 6, 7 :: int]) (- 1)) \<and>
   receive (Take (From [5, 6, 7 :: int]) (- 1)) =
     Some (Closed (Chan (Take_body (- 1)) (Exited (1, From [6, 7])))) \<and>
   delivered (Take (From [5, 6, 7 :: int]) (- 1)) = Some [] \<and>
   delivered (Take (From [5, 6, 7 :: int]) (- 1)) = delivered (Take (From [5, 6, 7 :: int]) 0)"
  using Take_negative [of "- 1" "From [5, 6, 7 :: int]"]
  by (auto simp: receive_From_Cons)

section \<open>Where the code departs from its description\<close>

text \<open>
  C1: given a nil source, \<open>Map\<close>, \<open>Filter\<close> and \<open>Zip\<close> return nil, but \<open>Take\<close> and
  \<open>Skip\<close> do not: they make a channel and start a goroutine that blocks for ever in its
  receive from the nil source, so the channel they return is not nil, is never closed, and
  a receive from it never returns.
\<close>

theorem nil_source_Take_Skip:
  "\<not> is_nil (Take NilChan n) \<and> receive (Take NilChan n) = None \<and>
   delivered (Take NilChan n) = None \<and>
   \<not> is_nil (Skip NilChan n) \<and> receive (Skip NilChan n) = None \<and>
   delivered (Skip NilChan n) = None \<and>
   is_nil (Map NilChan f) \<and> is_nil (Filter NilChan p) \<and>
   is_nil (Zip NilChan ys g) \<and> is_nil (Zip xs NilChan g)"
proof -
  have t: "receive (Take NilChan n) = None" by (simp add: Take_def)
  have s: "receive (Skip NilChan n) = None" by (simp add: Skip_def Skip_loop_blocked)
  show ?thesis
    using t s drain_blocked [OF t] drain_blocked [OF s]
    by (simp add: delivered_def Take_def Skip_def Map_def Filter_def Zip_def)
qed

text \<open>
  C2: \<open>Take\<close> receives one element more than its count. With the count 1 on the source
  of 1, 2, 3 the consumer receives 1 and the close; by then the goroutine of \<open>Take\<close> has
  received two elements (\<^verbatim>\<open>taken\<close> is 2) and the source has only 3 left to send. With the
  count 0 on the source of 7 alone, the 7 has been received when the output is closed.
\<close>

theorem Take_receives_one_more:
  "drain (Take (From [1, 2, 3 :: int]) 1) =
     Some ([1], Chan (Take_body 1) (Exited (2, From [3]))) \<and>
   drain (Take (From [7 :: int]) 0) =
     Some ([], Chan (Take_body 0) (Exited (1, From [])))"
  by (simp add: Take_def From_def drain.simps word_sless_alt)

end
